theory Spec2Isabelle
  imports Main "HOL-Library.Multiset"
begin

section \<open>Transactions and the byte-size estimator\<close>

text \<open>
  Embedding of \<^verbatim>\<open>src/operations/utils.ts\<close>.  JavaScript numbers that hold satoshi
  amounts, fee rates and byte counts are modelled as integers (\<open>int\<close>): whole numbers,
  on which the arithmetic of the code is exact as long as the magnitudes stay within
  \<open>2^53\<close>.  Lengths and array sizes are natural numbers.  A script is a byte buffer, of
  which the code only reads the length.
\<close>

type_synonym buffer = "nat list"

text \<open>\<^verbatim>\<open>interface txPoint { script: { length: number } }\<close>; the script may be absent.\<close>

record txPoint =
  script :: "buffer option"

text \<open>An input of the inner transaction: a point with the hash and output index it spends.\<close>

record txInput = txPoint +
  in_hash :: string
  in_index :: int

text \<open>An output of the inner transaction (the field \<^verbatim>\<open>value\<close> of the source).\<close>

record txOutput = txPoint +
  out_value :: int

record Transaction =
  ins :: "txInput list"
  outs :: "txOutput list"

text \<open>The builder holds its transaction in the field \<^verbatim>\<open>__tx\<close>.\<close>

record TransactionBuilder =
  tx :: Transaction

datatype txIn = ATransaction Transaction | ABuilder TransactionBuilder

definition TX_EMPTY_SIZE :: int where
  "TX_EMPTY_SIZE = 4 + 1 + 1 + 4"

definition TX_INPUT_BASE :: int where
  "TX_INPUT_BASE = 32 + 4 + 1 + 4"

definition TX_INPUT_PUBKEYHASH :: int where
  "TX_INPUT_PUBKEYHASH = 107"

definition TX_OUTPUT_BASE :: int where
  "TX_OUTPUT_BASE = 8 + 1"

definition TX_OUTPUT_PUBKEYHASH :: int where
  "TX_OUTPUT_PUBKEYHASH = 25"

text \<open>
  \<^verbatim>\<open>input && input.script && input.script.length > 0\<close>: \<open>None\<close> is the \<^verbatim>\<open>null\<close>
  placeholder.
\<close>

definition inputBytes :: "'a txPoint_scheme option \<Rightarrow> int" where
  "inputBytes input =
     (case input of
        None \<Rightarrow> TX_INPUT_BASE + TX_INPUT_PUBKEYHASH
      | Some p \<Rightarrow>
          (case script p of
             None \<Rightarrow> TX_INPUT_BASE + TX_INPUT_PUBKEYHASH
           | Some s \<Rightarrow>
               if length s > 0 then TX_INPUT_BASE + int (length s)
               else TX_INPUT_BASE + TX_INPUT_PUBKEYHASH))"

definition outputBytes :: "'a txPoint_scheme option \<Rightarrow> int" where
  "outputBytes output =
     (case output of
        None \<Rightarrow> TX_OUTPUT_BASE + TX_OUTPUT_PUBKEYHASH
      | Some p \<Rightarrow>
          (case script p of
             None \<Rightarrow> TX_OUTPUT_BASE + TX_OUTPUT_PUBKEYHASH
           | Some s \<Rightarrow>
               if length s > 0 then TX_OUTPUT_BASE + int (length s)
               else TX_OUTPUT_BASE + TX_OUTPUT_PUBKEYHASH))"

text \<open>\<^verbatim>\<open>reduce((a, x) => a + f(x), 0)\<close> is a left fold from 0.\<close>

definition transactionBytes ::
  "'a txPoint_scheme option list \<Rightarrow> 'b txPoint_scheme option list \<Rightarrow> int" where
  "transactionBytes inputs outputs =
     TX_EMPTY_SIZE
     + foldl (\<lambda>a x. a + inputBytes x) 0 inputs
     + foldl (\<lambda>a x. a + outputBytes x) 0 outputs"

definition getTransactionInsideBuilder :: "TransactionBuilder \<Rightarrow> Transaction" where
  "getTransactionInsideBuilder txBuilder = tx txBuilder"

definition getTransaction :: "txIn \<Rightarrow> Transaction" where
  "getTransaction t =
     (case t of
        ATransaction t' \<Rightarrow> t'
      | ABuilder b \<Rightarrow> getTransactionInsideBuilder b)"

text \<open>
  \<^verbatim>\<open>new Array(n).fill(null)\<close> is \<open>replicate n None\<close>; the counts are array lengths.
\<close>

definition estimateTXBytes :: "txIn \<Rightarrow> nat \<Rightarrow> nat \<Rightarrow> int" where
  "estimateTXBytes t additionalInputs additionalOutputs =
     (let innerTx = getTransaction t;
          dummyInputs = replicate additionalInputs None;
          dummyOutputs = replicate additionalOutputs None;
          inputs = map Some (ins innerTx) @ dummyInputs;
          outputs = map Some (outs innerTx) @ dummyOutputs
      in transactionBytes inputs outputs)"

section \<open>The UTXO funder\<close>

text \<open>
  Modelled from the spec: the interface \<^verbatim>\<open>UTXO\<close> of \<^verbatim>\<open>../network\<close>, which is not among
  the sources.  An unspent output of the payer has the fields that \<^verbatim>\<open>addUTXOsToFund\<close>
  reads and its documentation lists: \<^verbatim>\<open>{value: number, tx_hash: string, tx_output_n}\<close>
  (the field \<open>utxo_value\<close> is the source's \<^verbatim>\<open>value\<close>).
\<close>

record UTXO =
  utxo_value :: int
  tx_hash :: string
  tx_output_n :: int

text \<open>
  Modelled from the spec: the class \<^verbatim>\<open>NotEnoughFundsError\<close> of \<^verbatim>\<open>../errors\<close>, which is
  not among the sources; the error carries the amount still to fund, the argument of its
  constructor.  The other errors of the model: \<open>TypeError\<close> is what a method call on
  \<^verbatim>\<open>undefined\<close> raises, and \<open>SignerError\<close> stands for whatever a signer rejects with.
\<close>

datatype error = NotEnoughFundsError int | TypeError | SignerError string

text \<open>
  \<^verbatim>\<open>txBuilderIn.addInput(hash, n)\<close> of the builder of bitcoinjs-lib: the inner
  transaction gets one more input, which refers to the given output and has an empty
  script.  What else the library's builder checks and records is not modelled.
\<close>

definition addInput :: "TransactionBuilder \<Rightarrow> string \<Rightarrow> int \<Rightarrow> TransactionBuilder" where
  "addInput txBuilder txHash vout =
     txBuilder\<lparr>tx := (tx txBuilder)\<lparr>ins := ins (tx txBuilder)
       @ [\<lparr>script = Some [], in_hash = txHash, in_index = vout\<rparr>]\<rparr>\<rparr>"

text \<open>
  The function mutates the builder and, when it sorts, the caller's array of UTXOs, and it
  may throw after having done so.  The model therefore returns three things: the outcome
  (\<open>Inl\<close> the error thrown, \<open>Inr\<close> the change returned), the builder and the caller's
  array as the call leaves them.  \<^verbatim>\<open>Array.prototype.sort\<close> with a comparator on the
  values is the stable \<open>sort_key\<close>; \<^verbatim>\<open>utxos.slice(1)\<close> is a fresh array, so what the
  recursive call does to its own pool is not seen by the caller.
\<close>

function addUTXOsToFund ::
  "TransactionBuilder \<Rightarrow> UTXO list \<Rightarrow> int \<Rightarrow> int \<Rightarrow> bool
     \<Rightarrow> (error + int) \<times> TransactionBuilder \<times> UTXO list" where
  "addUTXOsToFund txBuilderIn utxos amountToFund feeRate fundNewFees =
     (if length utxos = 0 then (Inl (NotEnoughFundsError amountToFund), txBuilderIn, utxos)
      else
        let newFees = feeRate * (estimateTXBytes (ABuilder txBuilderIn) 1 0
                                 - estimateTXBytes (ABuilder txBuilderIn) 0 0);
            utxoThreshhold = (if fundNewFees then amountToFund + newFees else amountToFund);
            goodUtxos = filter (\<lambda>utxo. utxo_value utxo \<ge> utxoThreshhold) utxos
        in
          if length goodUtxos > 0 then
            let goodSorted = sort_key utxo_value goodUtxos;
                selected = hd goodSorted;
                change = (if fundNewFees then utxo_value selected - amountToFund - newFees
                          else utxo_value selected - amountToFund)
            in (Inr change,
                addInput txBuilderIn (tx_hash selected) (tx_output_n selected),
                utxos)
          else
            let utxosSorted = sort_key (\<lambda>utxo. - utxo_value utxo) utxos;
                largest = hd utxosSorted
            in
              if newFees \<ge> utxo_value largest
              then (Inl (NotEnoughFundsError amountToFund), txBuilderIn, utxosSorted)
              else
                let txBuilderNext =
                      addInput txBuilderIn (tx_hash largest) (tx_output_n largest);
                    remainToFund = (if fundNewFees then amountToFund - utxo_value largest + newFees
                                    else amountToFund - utxo_value largest);
                    inner = addUTXOsToFund txBuilderNext (tl utxosSorted)
                              remainToFund feeRate fundNewFees
                in (fst inner, fst (snd inner), utxosSorted))"
  by pat_completeness auto
termination
  by (relation "measure (\<lambda>(txBuilderIn, utxos, amountToFund, feeRate, fundNewFees). length utxos)")
    (auto simp: Suc_le_eq)

declare addUTXOsToFund.simps [simp del]



section \<open>The base-40 decoder\<close>

definition characters :: string where
  "characters = ''0123456789abcdefghijklmnopqrstuvwxyz-_.+''"

text \<open>
  \<^verbatim>\<open>characters.indexOf(character)\<close> for a one-character needle: the first position of
  the character, or \<open>-1\<close> when it does not occur.
\<close>

fun indexOf :: "string \<Rightarrow> char \<Rightarrow> int" where
  "indexOf [] c = - 1"
| "indexOf (x # xs) c =
     (if x = c then 0 else (let i = indexOf xs c in if i < 0 then - 1 else i + 1))"

text \<open>
  The big integers of bn.js are the integers.  \<^verbatim>\<open>toString(16, padding)\<close> of bn.js writes
  the magnitude in lowercase hexadecimal, puts \<^verbatim>\<open>'0'\<close> in front as long as the length is
  not a multiple of \<^verbatim>\<open>padding\<close>, and then the sign in front of a negative number.
\<close>

definition hexDigits :: string where
  "hexDigits = ''0123456789abcdef''"

definition hexDigit :: "nat \<Rightarrow> char" where
  "hexDigit d = hexDigits ! d"

fun toHex :: "nat \<Rightarrow> string" where
  "toHex n = (if n < 16 then [hexDigit n] else toHex (n div 16) @ [hexDigit (n mod 16)])"

declare toHex.simps [simp del]

definition BN_toString16 :: "int \<Rightarrow> nat \<Rightarrow> string" where
  "BN_toString16 n padding =
     (let p = (if padding = 0 then 1 else padding);
          out = toHex (nat \<bar>n\<bar>);
          padded = replicate ((p - length out mod p) mod p) (CHR ''0'') @ out
      in if n < 0 then CHR ''-'' # padded else padded)"

text \<open>
  \<^verbatim>\<open>input.split('').reverse()\<close> is the reversed list of characters; the callback of
  \<^verbatim>\<open>map\<close> gets each character with its position, the exponent.
\<close>

definition decodeB40 :: "string \<Rightarrow> string" where
  "decodeB40 input =
     (let base = (40::int);
          inputDigits = rev input;
          digitValues = map (\<lambda>(exponent, character).
                               indexOf characters character * base ^ exponent)
                          (enumerate 0 inputDigits);
          sum = foldl (\<lambda>agg cur. agg + cur) 0 digitValues
      in BN_toString16 sum 2)"

text \<open>
  For comparison, the reading of section 4.4 of the specification: the input read as a
  base-40 number with the most significant digit first, a digit being the position of the
  character in the alphabet, and the hexadecimal numeral zero-padded to a width of at
  least two.  \<open>zeroPadEven\<close> pads to an even number of digits instead.
\<close>

definition base40Number :: "string \<Rightarrow> int" where
  "base40Number s = foldl (\<lambda>acc c. acc * 40 + indexOf characters c) 0 s"

definition zeroPadAtLeast :: "nat \<Rightarrow> string \<Rightarrow> string" where
  "zeroPadAtLeast w s = replicate (w - length s) (CHR ''0'') @ s"

definition zeroPadEven :: "string \<Rightarrow> string" where
  "zeroPadEven s = (if even (length s) then s else CHR ''0'' # s)"

text \<open>The number that a hexadecimal numeral denotes.\<close>

definition hexValue :: "string \<Rightarrow> nat" where
  "hexValue s = foldl (\<lambda>acc c. acc * 16 + nat (indexOf hexDigits c)) 0 s"

section \<open>Signing the inputs\<close>

text \<open>
  Modelled from the spec: the interface \<^verbatim>\<open>TransactionSigner\<close> of \<^verbatim>\<open>./signers\<close>, which is
  not among the sources.  A signer has one operation, \<^verbatim>\<open>signTransaction(transaction,
  inputIndex)\<close>; it works on the builder and completes, or it fails with an error.
\<close>

record TransactionSigner =
  signTransaction :: "TransactionBuilder \<Rightarrow> nat \<Rightarrow> error + TransactionBuilder"

text \<open>An entry \<^verbatim>\<open>{index: number; signer: TransactionSigner}\<close> of \<^verbatim>\<open>otherSigners\<close>.\<close>

record signerPair =
  index :: int
  signer :: TransactionSigner

text \<open>
  A JavaScript array with holes: \<open>None\<close> is an element that reads as \<^verbatim>\<open>undefined\<close>, as
  does every position from the length on.  Writing at or beyond the length extends the
  array; writing at a negative position sets a property of the object and changes no
  element.
\<close>

definition js_get :: "'a option list \<Rightarrow> nat \<Rightarrow> 'a option" where
  "js_get xs i = (if i < length xs then xs ! i else None)"

definition js_set :: "'a option list \<Rightarrow> int \<Rightarrow> 'a \<Rightarrow> 'a option list" where
  "js_set xs i v =
     (if i < 0 then xs
      else if nat i < length xs then xs[nat i := Some v]
      else xs @ replicate (nat i - length xs) None @ [Some v])"

text \<open>
  The loop \<^verbatim>\<open>for (let i = 0; i < txInner.ins.length; i++) await
  signerArray[i].signTransaction(txB, i)\<close>.  An awaited call has completed, with its
  effect on the builder, or has failed, before the loop goes on; a failure leaves the
  loop.  Next to the outcome the model returns the invocations in the order in which they
  are made: the index, the signer and the builder the signer is given.
\<close>

record invocation =
  inputIndex :: nat
  signerUsed :: TransactionSigner
  builderGiven :: TransactionBuilder

function signLoop ::
  "TransactionSigner option list \<Rightarrow> nat \<Rightarrow> TransactionBuilder
     \<Rightarrow> (error + TransactionBuilder) \<times> invocation list" where
  "signLoop signerArray i txB =
     (if i < length (ins (getTransactionInsideBuilder txB)) then
        (case js_get signerArray i of
           None \<Rightarrow> (Inl TypeError, [])
         | Some s \<Rightarrow>
             (case signTransaction s txB i of
                Inl e \<Rightarrow> (Inl e, [\<lparr>inputIndex = i, signerUsed = s, builderGiven = txB\<rparr>])
              | Inr txB' \<Rightarrow>
                  (let rest = signLoop signerArray (i + 1) txB'
                   in (fst rest, \<lparr>inputIndex = i, signerUsed = s, builderGiven = txB\<rparr> # snd rest))))
      else (Inr txB, []))"
  by pat_completeness auto
termination
  by (relation "measure (\<lambda>(signerArray, i, txB). length signerArray - i)")
    (auto simp: js_get_def split: if_splits)

declare signLoop.simps [simp del]

definition signInputs ::
  "TransactionBuilder \<Rightarrow> TransactionSigner \<Rightarrow> signerPair list option
     \<Rightarrow> (error + TransactionBuilder) \<times> invocation list" where
  "signInputs txB defaultSigner otherSigners =
     (let txInner = getTransactionInsideBuilder txB;
          signerArray = map (\<lambda>_. Some defaultSigner) (ins txInner);
          signerArray' =
            (case otherSigners of
               None \<Rightarrow> signerArray
             | Some pairs \<Rightarrow>
                 foldl (\<lambda>arr signerPair. js_set arr (index signerPair) (signer signerPair))
                   signerArray pairs)
      in signLoop signerArray' 0 txB)"

text \<open>
  The assignment of signers as the specification words it: the default signer at every
  index, but the override where the list has one (the last one listed for the index).
\<close>

definition assignedSigner ::
  "TransactionSigner \<Rightarrow> signerPair list \<Rightarrow> nat \<Rightarrow> TransactionSigner" where
  "assignedSigner defaultSigner pairs i =
     (let listed = filter (\<lambda>p. index p = int i) pairs
      in if listed = [] then defaultSigner else signer (last listed))"

text \<open>
  Signing one input after the other, as the specification words it: for each index of the
  list in turn the assigned signer is invoked on the builder as the signers before it
  left it; the first failure ends the run with that error.
\<close>

fun signEach ::
  "(nat \<Rightarrow> TransactionSigner) \<Rightarrow> nat list \<Rightarrow> TransactionBuilder
     \<Rightarrow> (error + TransactionBuilder) \<times> invocation list" where
  "signEach assign [] txB = (Inr txB, [])"
| "signEach assign (i # js) txB =
     (case signTransaction (assign i) txB i of
        Inl e \<Rightarrow> (Inl e, [\<lparr>inputIndex = i, signerUsed = assign i, builderGiven = txB\<rparr>])
      | Inr txB' \<Rightarrow>
          (let rest = signEach assign js txB'
           in (fst rest, \<lparr>inputIndex = i, signerUsed = assign i, builderGiven = txB\<rparr> # snd rest)))"

text \<open>
  A signer attaches an unlocking script to an input; it does not add or remove inputs.
  \<open>keepsInputs\<close> says so of a signer.
\<close>

definition keepsInputs :: "TransactionSigner \<Rightarrow> bool" where
  "keepsInputs s \<longleftrightarrow>
     (\<forall>t i t'. signTransaction s t i = Inr t' \<longrightarrow> length (ins (tx t')) = length (ins (tx t)))"

section \<open>Example data\<close>

definition emptyBuilder :: TransactionBuilder where
  "emptyBuilder = \<lparr>tx = \<lparr>ins = [], outs = []\<rparr>\<rparr>"

definition utxo :: "int \<Rightarrow> string \<Rightarrow> UTXO" where
  "utxo v h = \<lparr>utxo_value = v, tx_hash = h, tx_output_n = 0\<rparr>"

text \<open>
  A signer that attaches a given script to the input it is asked to sign, and one that
  always fails; a builder with three inputs.
\<close>

definition attachScript :: "TransactionBuilder \<Rightarrow> nat \<Rightarrow> buffer \<Rightarrow> TransactionBuilder" where
  "attachScript txB i s =
     txB\<lparr>tx := (tx txB)\<lparr>ins := map (\<lambda>(j, input). if j = i then input\<lparr>script := Some s\<rparr> else input)
                                 (enumerate 0 (ins (tx txB)))\<rparr>\<rparr>"

definition scriptSigner :: "buffer \<Rightarrow> TransactionSigner" where
  "scriptSigner s = \<lparr>signTransaction = (\<lambda>txB i. Inr (attachScript txB i s))\<rparr>"

definition failingSigner :: "string \<Rightarrow> TransactionSigner" where
  "failingSigner msg = \<lparr>signTransaction = (\<lambda>txB i. Inl (SignerError msg))\<rparr>"

definition threeInputs :: TransactionBuilder where
  "threeInputs = addInput (addInput (addInput emptyBuilder ''a'' 0) ''b'' 1) ''c'' 2"

section \<open>Properties of the estimator\<close>

lemma foldl_add_sum_list:
  "foldl (\<lambda>a x. a + f x) (s::int) xs = s + sum_list (map f xs)"
  by (induction xs arbitrary: s) simp_all

lemma inputBytes_None: "inputBytes None = 148"
  by (simp add: inputBytes_def TX_INPUT_BASE_def TX_INPUT_PUBKEYHASH_def)

lemma outputBytes_None: "outputBytes None = 34"
  by (simp add: outputBytes_def TX_OUTPUT_BASE_def TX_OUTPUT_PUBKEYHASH_def)

lemma estimateTXBytes_split:
  "estimateTXBytes t a b = estimateTXBytes t 0 0 + int a * 148 + int b * 34"
  by (simp add: estimateTXBytes_def transactionBytes_def foldl_add_sum_list
      inputBytes_None outputBytes_None sum_list_replicate Let_def)

text \<open>
  Claim C5.  For every transaction and all counts \<open>a\<close>, \<open>b\<close>, the estimate with \<open>a\<close>
  additional inputs and \<open>b\<close> additional outputs exceeds the estimate of the transaction
  itself by \<open>a * (41 + 107) + b * (9 + 25)\<close>; an additional item is the empty
  placeholder and contributes the pay-to-pubkey-hash estimate.  The existing inputs and
  outputs may carry scripts or not: they cancel in the difference.
\<close>

theorem estimateTXBytes_additional:
  "estimateTXBytes t a b - estimateTXBytes t 0 0 = int a * (41 + 107) + int b * (9 + 25)
   \<and> inputBytes (None :: txInput option) = 41 + 107
   \<and> outputBytes (None :: txOutput option) = 9 + 25"
  using estimateTXBytes_split [of t a b]
  by (simp add: inputBytes_None outputBytes_None)

section \<open>Properties of the funder\<close>

text \<open>The marginal fee of one more input does not depend on the transaction.\<close>

lemma newFees_one: "estimateTXBytes t 1 0 - estimateTXBytes t 0 0 = 148"
  using estimateTXBytes_split [of t 1 0] by simp

lemma newFees_Suc: "estimateTXBytes t (Suc 0) 0 - estimateTXBytes t 0 0 = 148"
  using newFees_one [of t] by simp

lemma addUTXOsToFund_empty:
  "addUTXOsToFund t [] a f b = (Inl (NotEnoughFundsError a), t, [])"
  by (simp add: addUTXOsToFund.simps)

lemma sort_key_Nil_iff: "sort_key f xs = [] \<longleftrightarrow> xs = []"
  using length_sort [of f xs] by (metis length_0_conv)

lemma hd_sort_key_in: "xs \<noteq> [] \<Longrightarrow> hd (sort_key f xs) \<in> set xs"
  using hd_in_set [of "sort_key f xs"] by (simp add: sort_key_Nil_iff)

lemma hd_sort_key_le:
  fixes f :: "'a \<Rightarrow> int"
  assumes "x \<in> set xs"
  shows "f (hd (sort_key f xs)) \<le> f x"
proof -
  have s: "sorted (map f (sort_key f xs))" by (rule sorted_sort_key)
  from assms have "x \<in> set (sort_key f xs)" by simp
  with s show ?thesis
    by (cases "sort_key f xs") auto
qed

lemma addUTXOsToFund_good:
  assumes "\<exists>u\<in>set utxos. (if b then a + f * 148 else a) \<le> utxo_value u"
  shows "addUTXOsToFund t utxos a f b =
    (let selected = hd (sort_key utxo_value
            (filter (\<lambda>u. (if b then a + f * 148 else a) \<le> utxo_value u) utxos))
     in (Inr (if b then utxo_value selected - a - f * 148 else utxo_value selected - a),
         addInput t (tx_hash selected) (tx_output_n selected), utxos))"
proof -
  from assms have ne: "utxos \<noteq> []" by auto
  from assms have g: "filter (\<lambda>u. (if b then a + f * 148 else a) \<le> utxo_value u) utxos \<noteq> []"
    by (simp add: filter_empty_conv)
  show ?thesis
    using ne g
    by (subst addUTXOsToFund.simps) (simp add: newFees_one newFees_Suc Let_def)
qed

lemma addUTXOsToFund_fee:
  assumes "utxos \<noteq> []" "\<forall>u\<in>set utxos. utxo_value u < (if b then a + f * 148 else a)"
    "utxo_value (hd (sort_key (\<lambda>u. - utxo_value u) utxos)) \<le> f * 148"
  shows "addUTXOsToFund t utxos a f b =
    (Inl (NotEnoughFundsError a), t, sort_key (\<lambda>u. - utxo_value u) utxos)"
proof -
  from assms(2) have g: "filter (\<lambda>u. (if b then a + f * 148 else a) \<le> utxo_value u) utxos = []"
    by (auto simp: filter_empty_conv)
  show ?thesis
    using assms(1,3) g
    by (subst addUTXOsToFund.simps) (simp add: newFees_one newFees_Suc Let_def)
qed

lemma addUTXOsToFund_rec:
  assumes "utxos \<noteq> []" "\<forall>u\<in>set utxos. utxo_value u < (if b then a + f * 148 else a)"
    "f * 148 < utxo_value (hd (sort_key (\<lambda>u. - utxo_value u) utxos))"
  shows "addUTXOsToFund t utxos a f b =
    (let utxosSorted = sort_key (\<lambda>u. - utxo_value u) utxos;
         largest = hd utxosSorted;
         inner = addUTXOsToFund (addInput t (tx_hash largest) (tx_output_n largest))
                   (tl utxosSorted)
                   (if b then a - utxo_value largest + f * 148 else a - utxo_value largest) f b
     in (fst inner, fst (snd inner), utxosSorted))"
proof -
  from assms(2) have g: "filter (\<lambda>u. (if b then a + f * 148 else a) \<le> utxo_value u) utxos = []"
    by (auto simp: filter_empty_conv)
  show ?thesis
    using assms(1,3) g
    by (subst addUTXOsToFund.simps) (simp add: newFees_one newFees_Suc Let_def)
qed







lemma addUTXOsToFund_cases [case_names empty good fee rec]:
  assumes "utxos = [] \<Longrightarrow> P"
    and "\<lbrakk>utxos \<noteq> []; \<exists>u\<in>set utxos. (if b then a + f * 148 else a) \<le> utxo_value u\<rbrakk> \<Longrightarrow> P"
    and "\<lbrakk>utxos \<noteq> []; \<forall>u\<in>set utxos. utxo_value u < (if b then a + f * 148 else a);
          utxo_value (hd (sort_key (\<lambda>u. - utxo_value u) utxos)) \<le> f * 148\<rbrakk> \<Longrightarrow> P"
    and "\<lbrakk>utxos \<noteq> []; \<forall>u\<in>set utxos. utxo_value u < (if b then a + f * 148 else a);
          f * 148 < utxo_value (hd (sort_key (\<lambda>u. - utxo_value u) utxos))\<rbrakk> \<Longrightarrow> P"
  shows P
proof (cases "utxos = []")
  case True
  then show ?thesis by (rule assms(1))
next
  case ne: False
  show ?thesis
  proof (cases "\<exists>u\<in>set utxos. (if b then a + f * 148 else a) \<le> utxo_value u")
    case True
    with ne show ?thesis by (rule assms(2))
  next
    case False
    then have ng: "\<forall>u\<in>set utxos. utxo_value u < (if b then a + f * 148 else a)"
      by (meson not_le)
    show ?thesis
    proof (cases "utxo_value (hd (sort_key (\<lambda>u. - utxo_value u) utxos)) \<le> f * 148")
      case True
      with ne ng show ?thesis by (rule assms(3))
    next
      case False
      then have "f * 148 < utxo_value (hd (sort_key (\<lambda>u. - utxo_value u) utxos))" by simp
      with ne ng show ?thesis by (rule assms(4))
    qed
  qed
qed

lemma addUTXOsToFund_error_kind:
  "fst (addUTXOsToFund t utxos a f b) = Inl e \<Longrightarrow> \<exists>amount. e = NotEnoughFundsError amount"
proof (induction utxos arbitrary: t a rule: length_induct)
  case (1 utxos)
  let ?s = "sort_key (\<lambda>u. - utxo_value u) utxos"
  show ?case
  proof (cases rule: addUTXOsToFund_cases [where utxos = utxos and a = a and f = f and b = b])
    case empty
    with "1.prems" show ?thesis by (auto simp: addUTXOsToFund_empty)
  next
    case good
    with "1.prems" show ?thesis by (simp add: addUTXOsToFund_good Let_def)
  next
    case fee
    with "1.prems" show ?thesis by (auto simp: addUTXOsToFund_fee)
  next
    case rec
    have len: "length (tl ?s) < length utxos" using rec(1) by simp
    from "1.prems" have "fst (addUTXOsToFund (addInput t (tx_hash (hd ?s)) (tx_output_n (hd ?s)))
          (tl ?s) (if b then a - utxo_value (hd ?s) + f * 148 else a - utxo_value (hd ?s)) f b) = Inl e"
      by (simp add: addUTXOsToFund_rec [OF rec] Let_def)
    with "1.IH" len show ?thesis by blast
  qed
qed

lemma ins_addInput: "length (ins (tx (addInput t h n))) = Suc (length (ins (tx t)))"
  by (simp add: addInput_def)

lemma addUTXOsToFund_inputs_bound:
  "length (ins (tx (fst (snd (addUTXOsToFund t utxos a f b)))))
     \<le> length (ins (tx t)) + length utxos"
proof (induction utxos arbitrary: t a rule: length_induct)
  case (1 utxos)
  let ?s = "sort_key (\<lambda>u. - utxo_value u) utxos"
  show ?case
  proof (cases rule: addUTXOsToFund_cases [where utxos = utxos and a = a and f = f and b = b])
    case empty
    then show ?thesis by (simp add: addUTXOsToFund_empty)
  next
    case good
    then have "0 < length utxos" by simp
    with good show ?thesis by (simp add: addUTXOsToFund_good Let_def ins_addInput Suc_le_eq)
  next
    case fee
    then show ?thesis by (simp add: addUTXOsToFund_fee)
  next
    case rec
    have len: "length (tl ?s) < length utxos" using rec(1) by simp
    let ?t' = "addInput t (tx_hash (hd ?s)) (tx_output_n (hd ?s))"
    let ?a' = "if b then a - utxo_value (hd ?s) + f * 148 else a - utxo_value (hd ?s)"
    from "1.IH" len
    have ih: "length (ins (tx (fst (snd (addUTXOsToFund ?t' (tl ?s) ?a' f b)))))
        \<le> length (ins (tx ?t')) + length (tl ?s)" by blast
    have eq: "fst (snd (addUTXOsToFund t utxos a f b))
        = fst (snd (addUTXOsToFund ?t' (tl ?s) ?a' f b))"
      by (simp add: addUTXOsToFund_rec [OF rec] Let_def)
    have l1: "length (ins (tx ?t')) = Suc (length (ins (tx t)))" by (rule ins_addInput)
    have l2: "Suc (length (tl ?s)) = length utxos" using rec(1) by simp
    from ih l1 l2 show ?thesis unfolding eq by linarith
  qed
qed

lemma sorted_desc_sort_key:
  "sorted_wrt (\<lambda>x y. utxo_value y \<le> utxo_value x) (sort_key (\<lambda>utxo. - utxo_value utxo) utxos)"
  using sorted_sort_key [of "\<lambda>utxo. - utxo_value utxo" utxos]
  by (simp add: sorted_map)












text \<open>
  Claim C2.  When some UTXO of the pool reaches the threshold (\<open>amountToFund\<close>, plus the
  fee \<open>newFees\<close> of one more input when \<open>fundNewFees\<close> is set), the call appends as
  input a UTXO of the pool that reaches the threshold and whose value is least among
  those that do, and returns its value minus \<open>amountToFund\<close> (and minus \<open>newFees\<close> when
  \<open>fundNewFees\<close> is set).
\<close>

theorem addUTXOsToFund_selects_smallest_sufficient:
  fixes txB :: TransactionBuilder and utxos :: "UTXO list"
    and amountToFund feeRate :: int and fundNewFees :: bool
  defines "newFees \<equiv> feeRate * (estimateTXBytes (ABuilder txB) 1 0
                                  - estimateTXBytes (ABuilder txB) 0 0)"
  defines "threshold \<equiv> (if fundNewFees then amountToFund + newFees else amountToFund)"
  assumes "\<exists>u\<in>set utxos. threshold \<le> utxo_value u"
  shows "\<exists>selected\<in>set utxos.
      threshold \<le> utxo_value selected
    \<and> (\<forall>u\<in>set utxos. threshold \<le> utxo_value u \<longrightarrow> utxo_value selected \<le> utxo_value u)
    \<and> addUTXOsToFund txB utxos amountToFund feeRate fundNewFees =
        (Inr (if fundNewFees then utxo_value selected - amountToFund - newFees
              else utxo_value selected - amountToFund),
         addInput txB (tx_hash selected) (tx_output_n selected),
         utxos)
    \<and> ins (tx (addInput txB (tx_hash selected) (tx_output_n selected))) =
        ins (tx txB) @ [\<lparr>script = Some [], in_hash = tx_hash selected,
                         in_index = tx_output_n selected\<rparr>]"
proof -
  have nf: "newFees = feeRate * 148" by (simp add: newFees_def newFees_one newFees_Suc)
  let ?thr = "if fundNewFees then amountToFund + feeRate * 148 else amountToFund"
  have thr: "threshold = ?thr" by (simp add: threshold_def nf)
  let ?g = "filter (\<lambda>u. ?thr \<le> utxo_value u) utxos"
  let ?sel = "hd (sort_key utxo_value ?g)"
  from assms(3) have ex: "\<exists>u\<in>set utxos. ?thr \<le> utxo_value u" by (simp add: thr)
  then have gne: "?g \<noteq> []" by (simp add: filter_empty_conv)
  then have sg: "?sel \<in> set ?g" by (rule hd_sort_key_in)
  then have s1: "?sel \<in> set utxos" and s2: "?thr \<le> utxo_value ?sel" by simp_all
  have s3: "\<forall>u\<in>set utxos. ?thr \<le> utxo_value u \<longrightarrow> utxo_value ?sel \<le> utxo_value u"
  proof (intro ballI impI)
    fix u assume "u \<in> set utxos" "?thr \<le> utxo_value u"
    then have "u \<in> set ?g" by simp
    then show "utxo_value ?sel \<le> utxo_value u" by (rule hd_sort_key_le)
  qed
  have s4: "addUTXOsToFund txB utxos amountToFund feeRate fundNewFees =
        (Inr (if fundNewFees then utxo_value ?sel - amountToFund - newFees
              else utxo_value ?sel - amountToFund),
         addInput txB (tx_hash ?sel) (tx_output_n ?sel), utxos)"
    using addUTXOsToFund_good [OF ex, of txB] by (simp add: Let_def nf)
  have s5: "ins (tx (addInput txB (tx_hash ?sel) (tx_output_n ?sel))) =
        ins (tx txB) @ [\<lparr>script = Some [], in_hash = tx_hash ?sel, in_index = tx_output_n ?sel\<rparr>]"
    by (simp add: addInput_def)
  from s1 s2 s3 s4 s5 show ?thesis unfolding thr by blast
qed

theorem addUTXOsToFund_selects_smallest_sufficient_witness:
  "(\<exists>u\<in>set [utxo 1000 ''a'', utxo 6000 ''b'', utxo 7000 ''c''].
      (if True then 5000 + 1 * (estimateTXBytes (ABuilder emptyBuilder) 1 0
                                - estimateTXBytes (ABuilder emptyBuilder) 0 0) else 5000)
        \<le> utxo_value u)
   \<and> addUTXOsToFund emptyBuilder [utxo 1000 ''a'', utxo 6000 ''b'', utxo 7000 ''c''] 5000 1 True
       = (Inr 852, addInput emptyBuilder ''b'' 0, [utxo 1000 ''a'', utxo 6000 ''b'', utxo 7000 ''c''])
   \<and> ins (tx (addInput emptyBuilder ''b'' 0)) = [\<lparr>script = Some [], in_hash = ''b'', in_index = 0\<rparr>]"
proof -
  let ?pool = "[utxo 1000 ''a'', utxo 6000 ''b'', utxo 7000 ''c'']"
  let ?thr = "if True then 5000 + 1 * (estimateTXBytes (ABuilder emptyBuilder) 1 0
                                - estimateTXBytes (ABuilder emptyBuilder) 0 0) else 5000"
  have h: "\<exists>u\<in>set ?pool. ?thr \<le> utxo_value u"
    by (simp add: newFees_one newFees_Suc utxo_def)
  from addUTXOsToFund_selects_smallest_sufficient [OF h]
  obtain selected where sel: "selected \<in> set ?pool" "?thr \<le> utxo_value selected"
    "\<forall>u\<in>set ?pool. ?thr \<le> utxo_value u \<longrightarrow> utxo_value selected \<le> utxo_value u"
    and r: "addUTXOsToFund emptyBuilder ?pool 5000 1 True =
        (Inr (if True then utxo_value selected - 5000 - 1 * (estimateTXBytes (ABuilder emptyBuilder) 1 0
                                - estimateTXBytes (ABuilder emptyBuilder) 0 0)
              else utxo_value selected - 5000),
         addInput emptyBuilder (tx_hash selected) (tx_output_n selected), ?pool)"
    by blast
  from sel have "selected = utxo 6000 ''b''"
    by (auto simp: newFees_one newFees_Suc utxo_def)
  with r have "addUTXOsToFund emptyBuilder ?pool 5000 1 True
       = (Inr 852, addInput emptyBuilder ''b'' 0, ?pool)"
    by (simp add: newFees_one newFees_Suc utxo_def)
  moreover have "ins (tx (addInput emptyBuilder ''b'' 0))
      = [\<lparr>script = Some [], in_hash = ''b'', in_index = 0\<rparr>]"
    by (simp add: addInput_def emptyBuilder_def)
  ultimately show ?thesis using h by blast
qed

text \<open>
  Claim C3.  A call throws \<open>NotEnoughFundsError\<close> exactly in these cases: the pool is
  empty, and the error carries the \<open>amountToFund\<close> of the call; or no UTXO reaches the
  threshold and \<open>newFees\<close> is at least the value of the largest UTXO of the pool, and the
  error carries the \<open>amountToFund\<close> of the call; or no UTXO reaches the threshold, the
  largest one is worth more than \<open>newFees\<close>, and the recursive call on the rest of the
  pool throws the error.  Nothing else makes it throw.
\<close>

theorem addUTXOsToFund_raises_iff:
  fixes txB :: TransactionBuilder and utxos :: "UTXO list"
    and amountToFund feeRate :: int and fundNewFees :: bool
  defines "newFees \<equiv> feeRate * (estimateTXBytes (ABuilder txB) 1 0
                                  - estimateTXBytes (ABuilder txB) 0 0)"
  defines "threshold \<equiv> (if fundNewFees then amountToFund + newFees else amountToFund)"
  defines "utxosSorted \<equiv> sort_key (\<lambda>utxo. - utxo_value utxo) utxos"
  defines "largest \<equiv> hd utxosSorted"
  defines "remainToFund \<equiv> (if fundNewFees then amountToFund - utxo_value largest + newFees
                             else amountToFund - utxo_value largest)"
  shows "fst (addUTXOsToFund txB utxos amountToFund feeRate fundNewFees) = Inl e \<longleftrightarrow>
      (utxos = [] \<and> e = NotEnoughFundsError amountToFund)
    \<or> (utxos \<noteq> [] \<and> (\<forall>u\<in>set utxos. utxo_value u < threshold)
        \<and> utxo_value largest \<le> newFees \<and> e = NotEnoughFundsError amountToFund)
    \<or> (utxos \<noteq> [] \<and> (\<forall>u\<in>set utxos. utxo_value u < threshold)
        \<and> newFees < utxo_value largest
        \<and> fst (addUTXOsToFund (addInput txB (tx_hash largest) (tx_output_n largest))
                 (tl utxosSorted) remainToFund feeRate fundNewFees) = Inl e)"
proof -
  have nf: "newFees = feeRate * 148" by (simp add: newFees_def newFees_one newFees_Suc)
  have thr: "threshold = (if fundNewFees then amountToFund + feeRate * 148 else amountToFund)"
    by (simp add: threshold_def nf)
  show ?thesis
  proof (cases rule: addUTXOsToFund_cases
      [where utxos = utxos and a = amountToFund and f = feeRate and b = fundNewFees])
    case empty
    then show ?thesis by (auto simp: addUTXOsToFund_empty)
  next
    case good
    then have "\<not> (\<forall>u\<in>set utxos. utxo_value u < threshold)"
      unfolding thr by (meson not_le)
    with good show ?thesis by (simp add: addUTXOsToFund_good Let_def)
  next
    case fee
    from fee(3) have "\<not> newFees < utxo_value largest"
      by (simp add: nf largest_def utxosSorted_def)
    with fee show ?thesis
      unfolding thr by (auto simp: addUTXOsToFund_fee nf largest_def utxosSorted_def)
  next
    case rec
    from rec(3) have "\<not> utxo_value largest \<le> newFees"
      by (simp add: nf largest_def utxosSorted_def)
    with rec show ?thesis
      unfolding thr
      by (simp add: addUTXOsToFund_rec [OF rec] Let_def nf largest_def utxosSorted_def
          remainToFund_def)
  qed
qed

theorem addUTXOsToFund_raises_iff_witness:
  "[utxo 200 ''a'', utxo 300 ''b''] \<noteq> []
   \<and> utxo_value (utxo 200 ''a'') < 5000 + 1 * 148
   \<and> utxo_value (utxo 300 ''b'') < 5000 + 1 * 148
   \<and> 1 * 148 < utxo_value (hd (sort_key (\<lambda>utxo. - utxo_value utxo) [utxo 200 ''a'', utxo 300 ''b'']))
   \<and> fst (addUTXOsToFund (addInput emptyBuilder ''b'' 0) [utxo 200 ''a''] 4848 1 True)
       = Inl (NotEnoughFundsError 4796)
   \<and> fst (addUTXOsToFund emptyBuilder [utxo 200 ''a'', utxo 300 ''b''] 5000 1 True)
       = Inl (NotEnoughFundsError 4796)
   \<and> fst (addUTXOsToFund emptyBuilder [utxo 100 ''a''] 5000 1 True)
       = Inl (NotEnoughFundsError 5000)
   \<and> fst (addUTXOsToFund emptyBuilder [] 5000 1 True) = Inl (NotEnoughFundsError 5000)"
proof -
  let ?pool = "[utxo 200 ''a'', utxo 300 ''b'']"
  have s: "sort_key (\<lambda>utxo. - utxo_value utxo) ?pool = [utxo 300 ''b'', utxo 200 ''a'']"
    by (simp add: utxo_def)
  have inner: "fst (addUTXOsToFund (addInput emptyBuilder ''b'' 0) [utxo 200 ''a''] 4848 1 True)
       = Inl (NotEnoughFundsError 4796)"
    by code_simp
  have c: "utxo_value (utxo 200 ''a'') < 5000 + 1 * 148" "utxo_value (utxo 300 ''b'') < 5000 + 1 * 148"
    "1 * 148 < utxo_value (hd (sort_key (\<lambda>utxo. - utxo_value utxo) ?pool))"
    by (simp_all add: utxo_def)
  have top: "fst (addUTXOsToFund emptyBuilder ?pool 5000 1 True) = Inl (NotEnoughFundsError 4796)"
    using addUTXOsToFund_raises_iff [of emptyBuilder ?pool 5000 1 True "NotEnoughFundsError 4796"]
      inner
    by (simp add: newFees_one newFees_Suc utxo_def)
  have one: "fst (addUTXOsToFund emptyBuilder [utxo 100 ''a''] 5000 1 True)
       = Inl (NotEnoughFundsError 5000)"
    using addUTXOsToFund_raises_iff [of emptyBuilder "[utxo 100 ''a'']" 5000 1 True
        "NotEnoughFundsError 5000"]
    by (simp add: newFees_one newFees_Suc utxo_def)
  have none: "fst (addUTXOsToFund emptyBuilder [] 5000 1 True) = Inl (NotEnoughFundsError 5000)"
    using addUTXOsToFund_raises_iff [of emptyBuilder "[]" 5000 1 True "NotEnoughFundsError 5000"]
    by simp
  from c inner top one none show ?thesis by simp
qed

text \<open>
  Claim C7.  \<open>addUTXOsToFund\<close> is a total function (its termination is proved with the
  length of the pool as measure): every call returns a change or throws
  \<open>NotEnoughFundsError\<close>; on the empty pool it throws; where it calls itself, the pool it
  passes has one element less; and it appends at most as many inputs as the pool has
  UTXOs, one before each recursive call.
\<close>

theorem addUTXOsToFund_terminates:
  fixes txB :: TransactionBuilder and utxos :: "UTXO list"
    and amountToFund feeRate :: int and fundNewFees :: bool
  defines "newFees \<equiv> feeRate * (estimateTXBytes (ABuilder txB) 1 0
                                  - estimateTXBytes (ABuilder txB) 0 0)"
  defines "threshold \<equiv> (if fundNewFees then amountToFund + newFees else amountToFund)"
  defines "utxosSorted \<equiv> sort_key (\<lambda>utxo. - utxo_value utxo) utxos"
  defines "largest \<equiv> hd utxosSorted"
  defines "remainToFund \<equiv> (if fundNewFees then amountToFund - utxo_value largest + newFees
                             else amountToFund - utxo_value largest)"
  defines "inner \<equiv> addUTXOsToFund (addInput txB (tx_hash largest) (tx_output_n largest))
                      (tl utxosSorted) remainToFund feeRate fundNewFees"
  shows "((\<exists>change. fst (addUTXOsToFund txB utxos amountToFund feeRate fundNewFees) = Inr change)
          \<or> (\<exists>amount. fst (addUTXOsToFund txB utxos amountToFund feeRate fundNewFees)
                        = Inl (NotEnoughFundsError amount)))
    \<and> fst (addUTXOsToFund txB [] amountToFund feeRate fundNewFees)
        = Inl (NotEnoughFundsError amountToFund)
    \<and> (utxos \<noteq> [] \<and> (\<forall>u\<in>set utxos. utxo_value u < threshold) \<and> newFees < utxo_value largest
        \<longrightarrow> addUTXOsToFund txB utxos amountToFund feeRate fundNewFees
              = (fst inner, fst (snd inner), utxosSorted)
            \<and> length (tl utxosSorted) + 1 = length utxos)
    \<and> length (ins (tx (fst (snd (addUTXOsToFund txB utxos amountToFund feeRate fundNewFees)))))
        \<le> length (ins (tx txB)) + length utxos"
proof (intro conjI impI)
  show "(\<exists>change. fst (addUTXOsToFund txB utxos amountToFund feeRate fundNewFees) = Inr change)
          \<or> (\<exists>amount. fst (addUTXOsToFund txB utxos amountToFund feeRate fundNewFees)
                        = Inl (NotEnoughFundsError amount))"
  proof (cases "fst (addUTXOsToFund txB utxos amountToFund feeRate fundNewFees)")
    case (Inl e)
    then show ?thesis using addUTXOsToFund_error_kind [OF Inl] by simp
  next
    case (Inr c)
    then show ?thesis by simp
  qed
next
  show "fst (addUTXOsToFund txB [] amountToFund feeRate fundNewFees)
        = Inl (NotEnoughFundsError amountToFund)"
    by (simp add: addUTXOsToFund_empty)
next
  show "length (ins (tx (fst (snd (addUTXOsToFund txB utxos amountToFund feeRate fundNewFees)))))
        \<le> length (ins (tx txB)) + length utxos"
    by (rule addUTXOsToFund_inputs_bound)
next
  assume a: "utxos \<noteq> [] \<and> (\<forall>u\<in>set utxos. utxo_value u < threshold) \<and> newFees < utxo_value largest"
  have nf: "newFees = feeRate * 148" by (simp add: newFees_def newFees_one newFees_Suc)
  have ne: "utxos \<noteq> []"
    and ng: "\<forall>u\<in>set utxos. utxo_value u
               < (if fundNewFees then amountToFund + feeRate * 148 else amountToFund)"
    and big: "feeRate * 148 < utxo_value (hd (sort_key (\<lambda>u. - utxo_value u) utxos))"
    using a unfolding threshold_def nf largest_def utxosSorted_def by simp_all
  show "addUTXOsToFund txB utxos amountToFund feeRate fundNewFees
              = (fst inner, fst (snd inner), utxosSorted)"
    by (simp add: addUTXOsToFund_rec [OF ne ng big] Let_def inner_def remainToFund_def
        largest_def utxosSorted_def nf)
  show "length (tl utxosSorted) + 1 = length utxos"
    using ne by (simp add: utxosSorted_def)
qed

theorem addUTXOsToFund_terminates_witness:
  "[utxo 200 ''a'', utxo 300 ''b''] \<noteq> []
   \<and> utxo_value (utxo 200 ''a'') < 5000 + 1 * 148
   \<and> utxo_value (utxo 300 ''b'') < 5000 + 1 * 148
   \<and> 1 * 148 < utxo_value (hd (sort_key (\<lambda>utxo. - utxo_value utxo) [utxo 200 ''a'', utxo 300 ''b'']))
   \<and> length (tl (sort_key (\<lambda>utxo. - utxo_value utxo) [utxo 200 ''a'', utxo 300 ''b''])) + 1
       = length [utxo 200 ''a'', utxo 300 ''b'']
   \<and> addUTXOsToFund emptyBuilder [utxo 200 ''a'', utxo 300 ''b''] 5000 1 True
       = (Inl (NotEnoughFundsError 4796),
          addInput (addInput emptyBuilder ''b'' 0) ''a'' 0,
          [utxo 300 ''b'', utxo 200 ''a''])
   \<and> length (ins (tx (addInput (addInput emptyBuilder ''b'' 0) ''a'' 0)))
       \<le> length (ins (tx emptyBuilder)) + length [utxo 200 ''a'', utxo 300 ''b'']"
proof -
  let ?pool = "[utxo 200 ''a'', utxo 300 ''b'']"
  have s: "sort_key (\<lambda>utxo. - utxo_value utxo) ?pool = [utxo 300 ''b'', utxo 200 ''a'']"
    by (simp add: utxo_def)
  have inner: "addUTXOsToFund (addInput emptyBuilder ''b'' 0) [utxo 200 ''a''] 4848 1 True
       = (Inl (NotEnoughFundsError 4796), addInput (addInput emptyBuilder ''b'' 0) ''a'' 0,
          [utxo 200 ''a''])"
    by (simp add: addUTXOsToFund.simps newFees_one newFees_Suc utxo_def)
  have c: "utxo_value (utxo 200 ''a'') < 5000 + 1 * 148" "utxo_value (utxo 300 ''b'') < 5000 + 1 * 148"
    "1 * 148 < utxo_value (hd (sort_key (\<lambda>utxo. - utxo_value utxo) ?pool))"
    by (simp_all add: utxo_def)
  have top: "addUTXOsToFund emptyBuilder ?pool 5000 1 True
       = (Inl (NotEnoughFundsError 4796), addInput (addInput emptyBuilder ''b'' 0) ''a'' 0,
          [utxo 300 ''b'', utxo 200 ''a''])"
    using addUTXOsToFund_terminates [of emptyBuilder ?pool 5000 1 True] inner
    by (simp add: newFees_one newFees_Suc utxo_def)
  have l: "length (ins (tx (addInput (addInput emptyBuilder ''b'' 0) ''a'' 0)))
       \<le> length (ins (tx emptyBuilder)) + length ?pool"
    by (simp add: ins_addInput)
  from c s top l show ?thesis by simp
qed

text \<open>
  Claim C9.  When the pool is not empty and no UTXO reaches the threshold, the caller's
  array is left sorted by descending value: it is the stable sort of what the caller
  passed, a permutation of it.  When some UTXO reaches the threshold the caller's array
  is left as it was.
\<close>

theorem addUTXOsToFund_sorts_callers_pool:
  fixes txB :: TransactionBuilder and utxos :: "UTXO list"
    and amountToFund feeRate :: int and fundNewFees :: bool
  defines "newFees \<equiv> feeRate * (estimateTXBytes (ABuilder txB) 1 0
                                  - estimateTXBytes (ABuilder txB) 0 0)"
  defines "threshold \<equiv> (if fundNewFees then amountToFund + newFees else amountToFund)"
  defines "utxosAfter \<equiv> snd (snd (addUTXOsToFund txB utxos amountToFund feeRate fundNewFees))"
  shows "(utxos \<noteq> [] \<and> (\<forall>u\<in>set utxos. utxo_value u < threshold) \<longrightarrow>
            utxosAfter = sort_key (\<lambda>utxo. - utxo_value utxo) utxos
          \<and> sorted_wrt (\<lambda>x y. utxo_value y \<le> utxo_value x) utxosAfter
          \<and> mset utxosAfter = mset utxos)
    \<and> ((\<exists>u\<in>set utxos. threshold \<le> utxo_value u) \<longrightarrow> utxosAfter = utxos)"
proof (intro conjI impI)
  have nf: "newFees = feeRate * 148" by (simp add: newFees_def newFees_one newFees_Suc)
  {
    assume "\<exists>u\<in>set utxos. threshold \<le> utxo_value u"
    then have "\<exists>u\<in>set utxos.
        (if fundNewFees then amountToFund + feeRate * 148 else amountToFund) \<le> utxo_value u"
      unfolding threshold_def nf by simp
    then show "utxosAfter = utxos"
      by (simp add: utxosAfter_def addUTXOsToFund_good Let_def)
  }
  assume a: "utxos \<noteq> [] \<and> (\<forall>u\<in>set utxos. utxo_value u < threshold)"
  have ne: "utxos \<noteq> []"
    and ng: "\<forall>u\<in>set utxos. utxo_value u
               < (if fundNewFees then amountToFund + feeRate * 148 else amountToFund)"
    using a unfolding threshold_def nf by simp_all
  show after: "utxosAfter = sort_key (\<lambda>utxo. - utxo_value utxo) utxos"
  proof (cases "utxo_value (hd (sort_key (\<lambda>u. - utxo_value u) utxos)) \<le> feeRate * 148")
    case True
    with ne ng show ?thesis by (simp add: utxosAfter_def addUTXOsToFund_fee)
  next
    case False
    then have big: "feeRate * 148 < utxo_value (hd (sort_key (\<lambda>u. - utxo_value u) utxos))"
      by simp
    show ?thesis
      by (simp add: utxosAfter_def addUTXOsToFund_rec [OF ne ng big] Let_def)
  qed
  show "sorted_wrt (\<lambda>x y. utxo_value y \<le> utxo_value x) utxosAfter"
    unfolding after by (rule sorted_desc_sort_key)
  show "mset utxosAfter = mset utxos"
    unfolding after by simp
qed

theorem addUTXOsToFund_sorts_callers_pool_witness:
  "[utxo 200 ''a'', utxo 300 ''b''] \<noteq> []
   \<and> utxo_value (utxo 200 ''a'') < 5000 + 1 * 148
   \<and> utxo_value (utxo 300 ''b'') < 5000 + 1 * 148
   \<and> snd (snd (addUTXOsToFund emptyBuilder [utxo 200 ''a'', utxo 300 ''b''] 5000 1 True))
       = [utxo 300 ''b'', utxo 200 ''a'']
   \<and> 500 + 1 * 148 \<le> utxo_value (utxo 6000 ''a'')
   \<and> fst (addUTXOsToFund emptyBuilder [utxo 6000 ''a'', utxo 1000 ''b''] 500 1 True) = Inr 352
   \<and> snd (snd (addUTXOsToFund emptyBuilder [utxo 6000 ''a'', utxo 1000 ''b''] 500 1 True))
       = [utxo 6000 ''a'', utxo 1000 ''b'']"
proof -
  have s: "sort_key (\<lambda>utxo. - utxo_value utxo) [utxo 200 ''a'', utxo 300 ''b'']
      = [utxo 300 ''b'', utxo 200 ''a'']"
    by (simp add: utxo_def)
  have c: "utxo_value (utxo 200 ''a'') < 5000 + 1 * 148"
    "utxo_value (utxo 300 ''b'') < 5000 + 1 * 148"
    "500 + 1 * 148 \<le> utxo_value (utxo 6000 ''a'')"
    by (simp_all add: utxo_def)
  have r1: "snd (snd (addUTXOsToFund emptyBuilder [utxo 200 ''a'', utxo 300 ''b''] 5000 1 True))
       = [utxo 300 ''b'', utxo 200 ''a'']"
    using addUTXOsToFund_sorts_callers_pool [of "[utxo 200 ''a'', utxo 300 ''b'']" True 5000 1 emptyBuilder]
    by (simp add: newFees_one newFees_Suc utxo_def)
  have r2: "snd (snd (addUTXOsToFund emptyBuilder [utxo 6000 ''a'', utxo 1000 ''b''] 500 1 True))
       = [utxo 6000 ''a'', utxo 1000 ''b'']"
    using addUTXOsToFund_sorts_callers_pool [of "[utxo 6000 ''a'', utxo 1000 ''b'']" True 500 1 emptyBuilder]
    by (simp add: newFees_one newFees_Suc utxo_def)
  have r3: "fst (addUTXOsToFund emptyBuilder [utxo 6000 ''a'', utxo 1000 ''b''] 500 1 True) = Inr 352"
    by code_simp
  from c r1 r2 r3 show ?thesis by simp
qed

section \<open>Properties of the base-40 decoder\<close>

lemma indexOf_notin: "c \<notin> set s \<Longrightarrow> indexOf s c = - 1"
  by (induction s) auto

lemma indexOf_in: "c \<in> set s \<Longrightarrow> 0 \<le> indexOf s c \<and> indexOf s c < int (length s) \<and> s ! nat (indexOf s c) = c"
  by (induction s) (auto simp: Let_def nat_add_distrib)

lemma foldl_plus_sum_list: "foldl (\<lambda>agg cur. agg + cur) (a::int) xs = a + sum_list xs"
  by (induction xs arbitrary: a) simp_all

lemma base40_foldl_shift:
  "foldl (\<lambda>acc c. acc * 40 + indexOf characters c) a s
     = a * 40 ^ length s + foldl (\<lambda>acc c. acc * 40 + indexOf characters c) 0 s"
proof (induction s arbitrary: a)
  case Nil
  show ?case by simp
next
  case (Cons x s)
  show ?case
    using Cons.IH [of "a * 40 + indexOf characters x"] Cons.IH [of "indexOf characters x"]
    by (simp add: algebra_simps)
qed

lemma base40Number_Cons:
  "base40Number (c # s) = indexOf characters c * 40 ^ length s + base40Number s"
  using base40_foldl_shift [of "indexOf characters c" s] by (simp add: base40Number_def)

lemma base40Number_append:
  "base40Number (xs @ ys) = base40Number xs * 40 ^ length ys + base40Number ys"
  using base40_foldl_shift [of "base40Number xs" ys] by (simp add: base40Number_def)

lemma digit_sum_rev:
  "sum_list (map (\<lambda>(exponent, character). indexOf characters character * 40 ^ exponent)
       (enumerate 0 (rev s))) = base40Number s"
proof (induction s)
  case Nil
  show ?case by (simp add: base40Number_def)
next
  case (Cons c s)
  then show ?case
    by (simp add: enumerate_append_eq base40Number_Cons)
qed

lemma decodeB40_eq: "decodeB40 input = BN_toString16 (base40Number input) 2"
  by (simp add: decodeB40_def foldl_plus_sum_list digit_sum_rev)

lemma base40Number_nonneg: "set s \<subseteq> set characters \<Longrightarrow> 0 \<le> base40Number s"
proof (induction s)
  case Nil
  show ?case by (simp add: base40Number_def)
next
  case (Cons c s)
  then have "0 \<le> indexOf characters c" using indexOf_in [of c characters] by simp
  with Cons show ?case by (simp add: base40Number_Cons)
qed

lemma BN_toString16_nonneg: "0 \<le> n \<Longrightarrow> BN_toString16 n 2 = zeroPadEven (toHex (nat n))"
  by (auto simp: BN_toString16_def zeroPadEven_def Let_def even_iff_mod_2_eq_zero
      odd_iff_mod_2_eq_one)

lemma characters_index:
  "c \<in> set characters \<Longrightarrow>
     0 \<le> indexOf characters c \<and> indexOf characters c < 40
     \<and> characters ! nat (indexOf characters c) = c"
proof -
  assume c: "c \<in> set characters"
  have "int (length characters) = 40" by (simp add: characters_def)
  with indexOf_in [OF c] show ?thesis by simp
qed

text \<open>The digits that \<open>toHex\<close> writes denote the number.\<close>

lemma indexOf_nth: "distinct s \<Longrightarrow> i < length s \<Longrightarrow> indexOf s (s ! i) = int i"
proof (induction s arbitrary: i)
  case Nil
  then show ?case by simp
next
  case (Cons x s)
  show ?case
  proof (cases i)
    case 0
    then show ?thesis by simp
  next
    case (Suc k)
    with Cons.prems have k: "k < length s" and d: "distinct s" and x: "x \<notin> set s" by simp_all
    from k x have "x \<noteq> s ! k" by auto
    with Cons.IH [OF d k] Suc show ?thesis by (simp add: Let_def)
  qed
qed

lemma hexDigit_index: "d < 16 \<Longrightarrow> indexOf hexDigits (hexDigit d) = int d"
proof -
  assume d: "d < 16"
  have "distinct hexDigits" by (simp add: hexDigits_def)
  moreover from d have "d < length hexDigits" by (simp add: hexDigits_def)
  ultimately show ?thesis unfolding hexDigit_def by (rule indexOf_nth)
qed

lemma hexDigit_in: "d < 16 \<Longrightarrow> hexDigit d \<in> set hexDigits"
  unfolding hexDigit_def by (rule nth_mem) (simp add: hexDigits_def)

lemma hexValue_snoc:
  "hexValue (s @ [c]) = hexValue s * 16 + nat (indexOf hexDigits c)"
  by (simp add: hexValue_def)

lemma hexValue_toHex: "hexValue (toHex n) = n"
proof (induction n rule: toHex.induct)
  case (1 n)
  show ?case
  proof (cases "n < 16")
    case True
    then show ?thesis
      using hexValue_snoc [of "[]" "hexDigit n"]
      by (subst toHex.simps) (simp add: hexDigit_index hexValue_def)
  next
    case False
    have "n mod 16 < 16" by simp
    then have "nat (indexOf hexDigits (hexDigit (n mod 16))) = n mod 16"
      by (simp add: hexDigit_index)
    with False "1.IH" show ?thesis
      by (subst toHex.simps) (simp add: hexValue_snoc)
  qed
qed

lemma toHex_digits: "set (toHex n) \<subseteq> set hexDigits"
proof (induction n rule: toHex.induct)
  case (1 n)
  show ?case
  proof (cases "n < 16")
    case True
    then show ?thesis
      using hexDigit_in [of n] by (subst toHex.simps) simp
  next
    case False
    have "hexDigit (n mod 16) \<in> set hexDigits" by (rule hexDigit_in) simp
    with False "1.IH" show ?thesis
      by (subst toHex.simps) simp
  qed
qed

lemma hexValue_zero_Cons: "hexValue (CHR ''0'' # s) = hexValue s"
proof -
  have "indexOf hexDigits (CHR ''0'') = 0" by code_simp
  then show ?thesis by (simp add: hexValue_def)
qed

lemma hexValue_zeroPadEven: "hexValue (zeroPadEven s) = hexValue s"
  by (simp add: zeroPadEven_def hexValue_zero_Cons)

lemma zeroPadEven_digits:
  "set s \<subseteq> set hexDigits \<Longrightarrow> set (zeroPadEven s) \<subseteq> set hexDigits"
proof -
  have "CHR ''0'' \<in> set hexDigits" by code_simp
  then show "set s \<subseteq> set hexDigits \<Longrightarrow> set (zeroPadEven s) \<subseteq> set hexDigits"
    by (simp add: zeroPadEven_def)
qed

lemma zeroPadEven_even: "even (length (zeroPadEven s))"
  by (simp add: zeroPadEven_def)

lemma toHex_nonempty: "toHex n \<noteq> []"
  by (subst toHex.simps) simp

lemma zeroPadEven_length: "s \<noteq> [] \<Longrightarrow> 2 \<le> length (zeroPadEven s)"
proof -
  assume "s \<noteq> []"
  then have "1 \<le> length s" by (cases s) simp_all
  moreover have "even (length s) \<Longrightarrow> length s \<noteq> 1" by auto
  ultimately show ?thesis by (auto simp: zeroPadEven_def)
qed


text \<open>
  Claim C4, as stated, at the input \<^verbatim>\<open>1A\<close>: the character \<^verbatim>\<open>A\<close> is not in the
  alphabet and gets the index \<open>-1\<close>, yet the decoder returns a numeral, the one it
  returns for the well-formed input \<^verbatim>\<open>+\<close>: \<open>1 * 40 + (-1) = 39\<close>.  The function has
  no error outcome at all.
\<close>

theorem decodeB40_invalid_character_counterexample:
  "CHR ''A'' \<in> set ''1A'' \<and> CHR ''A'' \<notin> set characters
   \<and> indexOf characters (CHR ''A'') = - 1
   \<and> decodeB40 ''1A'' = ''27'' \<and> decodeB40 ''+'' = ''27'' \<and> decodeB40 ''A'' = ''-01''"
  by code_simp

text \<open>
  Claim C4, amended.  \<open>decodeB40\<close> reports no error on any input.  A character outside
  the alphabet has the index \<open>-1\<close>, and the decoder takes it as the digit \<open>-1\<close>: the
  result is the numeral (with a sign when negative) of the number in which that position
  counts \<open>-1\<close> times its power of 40.
\<close>

theorem decodeB40_invalid_character:
  assumes "c \<notin> set characters"
  shows "indexOf characters c = - 1
    \<and> decodeB40 (pre @ c # suf)
        = BN_toString16 (base40Number pre * 40 ^ Suc (length suf)
                         + (- 1) * 40 ^ length suf
                         + base40Number suf) 2"
proof -
  from assms have i: "indexOf characters c = - 1" by (rule indexOf_notin)
  have "base40Number (pre @ c # suf)
      = base40Number pre * 40 ^ Suc (length suf) + (- 1) * 40 ^ length suf + base40Number suf"
    by (simp add: base40Number_append base40Number_Cons i)
  with i show ?thesis by (simp only: decodeB40_eq simp_thms)
qed

theorem decodeB40_invalid_character_witness:
  "CHR ''A'' \<notin> set characters
   \<and> decodeB40 (''1'' @ CHR ''A'' # [])
       = BN_toString16 (base40Number ''1'' * 40 ^ Suc (length ([]::string))
                        + (- 1) * 40 ^ length ([]::string) + base40Number []) 2
   \<and> BN_toString16 (base40Number ''1'' * 40 ^ Suc (length ([]::string))
                        + (- 1) * 40 ^ length ([]::string) + base40Number []) 2 = ''27''"
proof -
  have n: "CHR ''A'' \<notin> set characters" by code_simp
  have e: "BN_toString16 (base40Number ''1'' * 40 ^ Suc (length ([]::string))
                        + (- 1) * 40 ^ length ([]::string) + base40Number []) 2 = ''27''"
    by code_simp
  from decodeB40_invalid_character [OF n, of "''1''" "[]"] n e show ?thesis by blast
qed

text \<open>
  Claim C8, as stated, at the input \<^verbatim>\<open>6g\<close>, which is \<open>6 * 40 + 16 = 256\<close>: padded to
  a width of at least two, the hexadecimal numeral is \<^verbatim>\<open>100\<close>; the decoder returns
  \<^verbatim>\<open>0100\<close>.
\<close>

theorem decodeB40_min_width_counterexample:
  "set ''6g'' \<subseteq> set characters \<and> base40Number ''6g'' = 256
   \<and> zeroPadAtLeast 2 (toHex (nat (base40Number ''6g''))) = ''100''
   \<and> decodeB40 ''6g'' = ''0100''"
  by code_simp

text \<open>
  Claim C8, amended.  For every string over the alphabet, \<open>decodeB40\<close> returns the
  lowercase hexadecimal numeral of the number that the string is in base 40, most
  significant digit first, a digit being the position of its character in the alphabet,
  with one \<^verbatim>\<open>0\<close> in front when the numeral has an odd number of digits: the result
  denotes that number, is made of the digits \<^verbatim>\<open>0-9a-f\<close>, and its length is even and at
  least two.  In particular \<^verbatim>\<open>0\<close> gives \<^verbatim>\<open>00\<close> and \<^verbatim>\<open>10\<close> gives \<^verbatim>\<open>28\<close>.
\<close>

theorem decodeB40_hex:
  "(set input \<subseteq> set characters \<longrightarrow>
      0 \<le> base40Number input
    \<and> decodeB40 input = zeroPadEven (toHex (nat (base40Number input)))
    \<and> hexValue (decodeB40 input) = nat (base40Number input)
    \<and> set (decodeB40 input) \<subseteq> set hexDigits
    \<and> even (length (decodeB40 input)) \<and> 2 \<le> length (decodeB40 input))
   \<and> (\<forall>c\<in>set characters. 0 \<le> indexOf characters c \<and> indexOf characters c < 40
         \<and> characters ! nat (indexOf characters c) = c)
   \<and> decodeB40 ''0'' = ''00'' \<and> decodeB40 ''10'' = ''28''"
proof (intro conjI impI ballI)
  assume a: "set input \<subseteq> set characters"
  then show nn: "0 \<le> base40Number input" by (rule base40Number_nonneg)
  then show d: "decodeB40 input = zeroPadEven (toHex (nat (base40Number input)))"
    by (simp only: decodeB40_eq BN_toString16_nonneg)
  show "hexValue (decodeB40 input) = nat (base40Number input)"
    unfolding d by (simp only: hexValue_zeroPadEven hexValue_toHex)
  show "set (decodeB40 input) \<subseteq> set hexDigits"
    unfolding d by (rule zeroPadEven_digits) (rule toHex_digits)
  show "even (length (decodeB40 input))"
    unfolding d by (rule zeroPadEven_even)
  show "2 \<le> length (decodeB40 input)"
    unfolding d by (rule zeroPadEven_length) (rule toHex_nonempty)
next
  fix c assume c: "c \<in> set characters"
  from characters_index [OF c]
  show "0 \<le> indexOf characters c" "indexOf characters c < 40"
    "characters ! nat (indexOf characters c) = c" by simp_all
next
  show "decodeB40 ''0'' = ''00''" by code_simp
  show "decodeB40 ''10'' = ''28''" by code_simp
qed

theorem decodeB40_hex_witness:
  "set ''6g'' \<subseteq> set characters
   \<and> decodeB40 ''6g'' = zeroPadEven (toHex (nat (base40Number ''6g'')))
   \<and> zeroPadEven (toHex (nat (base40Number ''6g''))) = ''0100''
   \<and> CHR ''g'' \<in> set characters \<and> indexOf characters (CHR ''g'') = 16"
proof -
  have a: "set ''6g'' \<subseteq> set characters" by code_simp
  have e: "zeroPadEven (toHex (nat (base40Number ''6g''))) = ''0100''" by code_simp
  have g: "CHR ''g'' \<in> set characters" "indexOf characters (CHR ''g'') = 16" by code_simp+
  from decodeB40_hex [of "''6g''"] a e g show ?thesis by blast
qed

section \<open>Properties of the signing loop\<close>

lemma js_get_js_set:
  "js_get (js_set xs j v) i = (if j = int i then Some v else js_get xs i)"
proof (cases "j < 0")
  case True
  then show ?thesis by (simp add: js_set_def)
next
  case nonneg: False
  show ?thesis
  proof (cases "nat j < length xs")
    case True
    with nonneg show ?thesis
      by (auto simp: js_set_def js_get_def)
  next
    case False
    with nonneg show ?thesis
      by (auto simp: js_set_def js_get_def nth_append)
  qed
qed

lemma assignedSigner_snoc:
  "assignedSigner d (ps @ [p]) i
     = (if index p = int i then signer p else assignedSigner d ps i)"
  by (simp add: assignedSigner_def)

lemma assignedSigner_Nil: "assignedSigner d [] i = d"
  by (simp add: assignedSigner_def)

lemma js_get_overrides:
  "i < length base \<Longrightarrow>
   js_get (foldl (\<lambda>arr signerPair. js_set arr (index signerPair) (signer signerPair))
             (map (\<lambda>_. Some d) base) pairs) i
     = Some (assignedSigner d pairs i)"
proof (induction pairs rule: rev_induct)
  case Nil
  then show ?case by (simp add: js_get_def assignedSigner_Nil)
next
  case (snoc p ps)
  then show ?case by (simp add: js_get_js_set assignedSigner_snoc)
qed

lemma assignedSigner_cases:
  "assignedSigner d pairs i = d \<or> assignedSigner d pairs i \<in> signer ` set pairs"
proof (induction pairs rule: rev_induct)
  case Nil
  show ?case by (simp add: assignedSigner_Nil)
next
  case (snoc p ps)
  then show ?case by (auto simp: assignedSigner_snoc)
qed

lemma assignedSigner_skip:
  "index p \<noteq> int i \<Longrightarrow>
   assignedSigner d (before @ p # after) i = assignedSigner d (before @ after) i"
  by (simp add: assignedSigner_def)

lemma signLoop_signEach:
  assumes "\<forall>j. i \<le> j \<and> j < N \<longrightarrow> js_get arr j = Some (asg j) \<and> keepsInputs (asg j)"
    and "length (ins (tx txB)) = N" and "i \<le> N"
  shows "signLoop arr i txB = signEach asg [i..<N] txB"
  using assms
proof (induction "N - i" arbitrary: i txB)
  case 0
  then have "i = N" by simp
  with "0.prems"(2) show ?case
    by (subst signLoop.simps) (simp add: getTransactionInsideBuilder_def)
next
  case (Suc n)
  then have lt: "i < N" by simp
  then have upt: "[i..<N] = i # [Suc i..<N]" by (rule upt_conv_Cons)
  from Suc.prems(1) lt have g: "js_get arr i = Some (asg i)" and k: "keepsInputs (asg i)"
    by simp_all
  show ?case
  proof (cases "signTransaction (asg i) txB i")
    case (Inl e)
    with lt g Suc.prems(2) show ?thesis
      by (subst signLoop.simps) (simp add: getTransactionInsideBuilder_def upt)
  next
    case (Inr t')
    with k have len: "length (ins (tx t')) = N"
      using Suc.prems(2) by (simp add: keepsInputs_def)
    have n: "n = N - Suc i" using Suc.hyps(2) by simp
    have later: "\<forall>j. Suc i \<le> j \<and> j < N \<longrightarrow> js_get arr j = Some (asg j) \<and> keepsInputs (asg j)"
      using Suc.prems(1) by simp
    have ih: "signLoop arr (Suc i) t' = signEach asg [Suc i..<N] t'"
      using Suc.hyps(1) [OF n later len] lt by simp
    from Inr lt g Suc.prems(2) ih show ?thesis
      by (subst signLoop.simps) (simp add: getTransactionInsideBuilder_def upt Let_def)
  qed
qed

lemma signEach_cong:
  "\<forall>i\<in>set js. asg i = asg' i \<Longrightarrow> signEach asg js t = signEach asg' js t"
  by (induction js arbitrary: t) (auto split: sum.splits)

lemma signInputs_signEach:
  assumes "keepsInputs d" and "\<forall>p\<in>set pairs. keepsInputs (signer p)"
    and "otherSigners = None \<and> pairs = [] \<or> otherSigners = Some pairs"
  shows "signInputs txB d otherSigners
    = signEach (assignedSigner d pairs) [0..<length (ins (tx txB))] txB"
proof -
  let ?N = "length (ins (tx txB))"
  let ?arr = "foldl (\<lambda>arr signerPair. js_set arr (index signerPair) (signer signerPair))
             (map (\<lambda>_. Some d) (ins (tx txB))) pairs"
  have k: "keepsInputs (assignedSigner d pairs j)" for j
    using assignedSigner_cases [of d pairs j] assms(1,2) by auto
  have "\<forall>j. 0 \<le> j \<and> j < ?N \<longrightarrow>
      js_get ?arr j = Some (assignedSigner d pairs j) \<and> keepsInputs (assignedSigner d pairs j)"
    using k by (simp add: js_get_overrides)
  then have l: "signLoop ?arr 0 txB = signEach (assignedSigner d pairs) [0..<?N] txB"
    by (rule signLoop_signEach) simp_all
  from assms(3) have "signInputs txB d otherSigners = signLoop ?arr 0 txB"
    by (auto simp: signInputs_def getTransactionInsideBuilder_def Let_def)
  with l show ?thesis by simp
qed

lemma signEach_indices:
  "map inputIndex (snd (signEach asg js t)) = take (length (snd (signEach asg js t))) js"
  by (induction js arbitrary: t) (auto split: sum.splits simp: Let_def)

lemma signEach_length: "length (snd (signEach asg js t)) \<le> length js"
  by (induction js arbitrary: t) (auto split: sum.splits simp: Let_def)

lemma signEach_assigned:
  "c \<in> set (snd (signEach asg js t)) \<Longrightarrow> signerUsed c = asg (inputIndex c)"
  by (induction js arbitrary: t) (auto split: sum.splits simp: Let_def)

lemma signEach_hd:
  "snd (signEach asg js t) \<noteq> [] \<Longrightarrow> builderGiven (hd (snd (signEach asg js t))) = t"
  by (cases js) (auto split: sum.splits simp: Let_def)

lemma signEach_success:
  "fst (signEach asg js t) = Inr t' \<Longrightarrow>
     length (snd (signEach asg js t)) = length js
     \<and> (if snd (signEach asg js t) = [] then t' = t
         else signTransaction (signerUsed (last (snd (signEach asg js t))))
                (builderGiven (last (snd (signEach asg js t))))
                (inputIndex (last (snd (signEach asg js t)))) = Inr t')"
proof (induction js arbitrary: t)
  case Nil
  then show ?case by simp
next
  case (Cons i js)
  show ?case
  proof (cases "signTransaction (asg i) t i")
    case (Inl e)
    with Cons.prems show ?thesis by simp
  next
    case (Inr u)
    with Cons.prems have "fst (signEach asg js u) = Inr t'" by (simp add: Let_def)
    from Cons.IH [OF this] Inr show ?thesis
      by (cases "snd (signEach asg js u) = []") (simp_all add: Let_def)
  qed
qed

lemma signEach_failure:
  "fst (signEach asg js t) = Inl e \<Longrightarrow>
     snd (signEach asg js t) \<noteq> []
     \<and> signTransaction (signerUsed (last (snd (signEach asg js t))))
          (builderGiven (last (snd (signEach asg js t))))
          (inputIndex (last (snd (signEach asg js t)))) = Inl e"
proof (induction js arbitrary: t)
  case Nil
  then show ?case by simp
next
  case (Cons i js)
  show ?case
  proof (cases "signTransaction (asg i) t i")
    case (Inl e')
    with Cons.prems show ?thesis by simp
  next
    case (Inr u)
    with Cons.prems have "fst (signEach asg js u) = Inl e" by (simp add: Let_def)
    from Cons.IH [OF this] Inr show ?thesis by (simp add: Let_def)
  qed
qed

lemma signEach_chain:
  "Suc j < length (snd (signEach asg js t)) \<Longrightarrow>
     signTransaction (signerUsed (snd (signEach asg js t) ! j))
       (builderGiven (snd (signEach asg js t) ! j))
       (inputIndex (snd (signEach asg js t) ! j))
     = Inr (builderGiven (snd (signEach asg js t) ! Suc j))"
proof (induction js arbitrary: t j)
  case Nil
  then show ?case by simp
next
  case (Cons i js)
  show ?case
  proof (cases "signTransaction (asg i) t i")
    case (Inl e)
    with Cons.prems show ?thesis by simp
  next
    case (Inr u)
    let ?rest = "snd (signEach asg js u)"
    have calls: "snd (signEach asg (i # js) t) = \<lparr>inputIndex = i, signerUsed = asg i, builderGiven = t\<rparr> # ?rest"
      using Inr by (simp add: Let_def)
    show ?thesis
    proof (cases j)
      case 0
      with Cons.prems calls have ne: "?rest \<noteq> []" by auto
      then have "builderGiven (hd ?rest) = u" by (rule signEach_hd)
      with ne have "builderGiven (?rest ! 0) = u" by (simp add: hd_conv_nth)
      with 0 Inr show ?thesis unfolding calls by simp
    next
      case (Suc k)
      with Cons.prems calls have "Suc k < length ?rest" by simp
      from Cons.IH [OF this] Suc show ?thesis unfolding calls by simp
    qed
  qed
qed

lemma upt_take: "k \<le> N \<Longrightarrow> take k [0..<N] = [0..<k]"
  by (simp add: take_upt)

lemma keepsInputs_scriptSigner: "keepsInputs (scriptSigner s)"
  by (auto simp: keepsInputs_def scriptSigner_def attachScript_def)

lemma keepsInputs_failingSigner: "keepsInputs (failingSigner msg)"
  by (simp add: keepsInputs_def failingSigner_def)

text \<open>
  Claim C6.  Take a builder with \<open>N\<close> inputs, a default signer and a list of overrides,
  the signers being such that they leave the number of inputs as it is.  Then
  \<open>signInputs\<close> signs one input after the other as the specification words it: its
  invocations are at the indices \<open>0, 1, ...\<close> in ascending order without a gap, each by
  the signer assigned to the index (the default, or the override listed for it); the
  first is given the caller's builder and each later one the builder with which the one
  before it completed.  When the call returns, all \<open>N\<close> indices have been signed and the
  result is what the last signer completed with; when it fails, the error is the one of
  the last invocation made, unchanged, so no signer of a later index is invoked.
\<close>

theorem signInputs_in_order:
  fixes txB :: TransactionBuilder and defaultSigner :: TransactionSigner
    and otherSigners :: "signerPair list option"
  defines "pairs \<equiv> (case otherSigners of None \<Rightarrow> [] | Some listed \<Rightarrow> listed)"
  defines "N \<equiv> length (ins (tx txB))"
  defines "outcome \<equiv> fst (signInputs txB defaultSigner otherSigners)"
  defines "calls \<equiv> snd (signInputs txB defaultSigner otherSigners)"
  assumes "keepsInputs defaultSigner" and "\<forall>p\<in>set pairs. keepsInputs (signer p)"
  shows "signInputs txB defaultSigner otherSigners
           = signEach (assignedSigner defaultSigner pairs) [0..<N] txB
    \<and> length calls \<le> N
    \<and> map inputIndex calls = [0..<length calls]
    \<and> (\<forall>c\<in>set calls. signerUsed c = assignedSigner defaultSigner pairs (inputIndex c))
    \<and> (calls \<noteq> [] \<longrightarrow> builderGiven (hd calls) = txB)
    \<and> (\<forall>j. Suc j < length calls \<longrightarrow>
          signTransaction (signerUsed (calls ! j)) (builderGiven (calls ! j))
            (inputIndex (calls ! j)) = Inr (builderGiven (calls ! Suc j)))
    \<and> (\<forall>txB'. outcome = Inr txB' \<longrightarrow>
          length calls = N
          \<and> (if calls = [] then txB' = txB
              else signTransaction (signerUsed (last calls)) (builderGiven (last calls))
                     (inputIndex (last calls)) = Inr txB'))
    \<and> (\<forall>e. outcome = Inl e \<longrightarrow>
          calls \<noteq> []
          \<and> signTransaction (signerUsed (last calls)) (builderGiven (last calls))
               (inputIndex (last calls)) = Inl e)"
proof -
  let ?asg = "assignedSigner defaultSigner pairs"
  have "otherSigners = None \<and> pairs = [] \<or> otherSigners = Some pairs"
    by (cases otherSigners) (simp_all add: pairs_def)
  with assms(5,6)
  have eq: "signInputs txB defaultSigner otherSigners = signEach ?asg [0..<N] txB"
    unfolding N_def by (rule signInputs_signEach)
  have c: "calls = snd (signEach ?asg [0..<N] txB)"
    and out: "outcome = fst (signEach ?asg [0..<N] txB)"
    by (simp_all add: calls_def outcome_def eq)
  have len: "length calls \<le> N"
    using signEach_length [of ?asg "[0..<N]" txB] by (simp add: c)
  have idx: "map inputIndex calls = [0..<length calls]"
    using signEach_indices [of ?asg "[0..<N]" txB] len by (simp add: c upt_take)
  have asg: "\<forall>c\<in>set calls. signerUsed c = ?asg (inputIndex c)"
    using signEach_assigned [of _ ?asg "[0..<N]" txB] by (simp add: c)
  have first: "calls \<noteq> [] \<longrightarrow> builderGiven (hd calls) = txB"
    using signEach_hd [of ?asg "[0..<N]" txB] by (simp add: c)
  have chain: "\<forall>j. Suc j < length calls \<longrightarrow>
          signTransaction (signerUsed (calls ! j)) (builderGiven (calls ! j))
            (inputIndex (calls ! j)) = Inr (builderGiven (calls ! Suc j))"
    using signEach_chain [of _ ?asg "[0..<N]" txB] by (simp add: c)
  have ok: "\<forall>txB'. outcome = Inr txB' \<longrightarrow>
          length calls = N
          \<and> (if calls = [] then txB' = txB
              else signTransaction (signerUsed (last calls)) (builderGiven (last calls))
                     (inputIndex (last calls)) = Inr txB')"
    using signEach_success [of ?asg "[0..<N]" txB] unfolding c out by simp
  have bad: "\<forall>e. outcome = Inl e \<longrightarrow>
          calls \<noteq> []
          \<and> signTransaction (signerUsed (last calls)) (builderGiven (last calls))
               (inputIndex (last calls)) = Inl e"
    using signEach_failure [of ?asg "[0..<N]" txB] unfolding c out by simp
  from eq len idx asg first chain ok bad show ?thesis by blast
qed

theorem signInputs_in_order_witness:
  "keepsInputs (scriptSigner [1]) \<and> keepsInputs (scriptSigner [2])
   \<and> keepsInputs (failingSigner ''refused'')
   \<and> length (ins (tx threeInputs)) = 3
   \<and> fst (signInputs threeInputs (scriptSigner [1])
             (Some [\<lparr>index = 1, signer = scriptSigner [2]\<rparr>]))
       = Inr (attachScript (attachScript (attachScript threeInputs 0 [1]) 1 [2]) 2 [1])
   \<and> map inputIndex (snd (signInputs threeInputs (scriptSigner [1])
             (Some [\<lparr>index = 1, signer = scriptSigner [2]\<rparr>]))) = [0, 1, 2]
   \<and> fst (signInputs threeInputs (scriptSigner [1])
             (Some [\<lparr>index = 1, signer = failingSigner ''refused''\<rparr>]))
       = Inl (SignerError ''refused'')
   \<and> map inputIndex (snd (signInputs threeInputs (scriptSigner [1])
             (Some [\<lparr>index = 1, signer = failingSigner ''refused''\<rparr>]))) = [0, 1]
   \<and> fst (signInputs threeInputs (scriptSigner [1]) None)
       = Inr (attachScript (attachScript (attachScript threeInputs 0 [1]) 1 [1]) 2 [1])"
proof -
  let ?d = "scriptSigner [1]"
  let ?ok = "[\<lparr>index = 1, signer = scriptSigner [2]\<rparr>]"
  let ?bad = "[\<lparr>index = 1, signer = failingSigner ''refused''\<rparr>]"
  have k: "keepsInputs ?d" "keepsInputs (scriptSigner [2])" "keepsInputs (failingSigner ''refused'')"
    by (rule keepsInputs_scriptSigner keepsInputs_failingSigner)+
  have n: "length (ins (tx threeInputs)) = 3" by code_simp
  have a: "signInputs threeInputs ?d (Some ?ok)
      = signEach (assignedSigner ?d ?ok) [0..<length (ins (tx threeInputs))] threeInputs"
    using signInputs_in_order [of ?d "Some ?ok" threeInputs] k by simp
  have b: "signInputs threeInputs ?d (Some ?bad)
      = signEach (assignedSigner ?d ?bad) [0..<length (ins (tx threeInputs))] threeInputs"
    using signInputs_in_order [of ?d "Some ?bad" threeInputs] k by simp
  have c: "signInputs threeInputs ?d None
      = signEach (assignedSigner ?d []) [0..<length (ins (tx threeInputs))] threeInputs"
    using signInputs_in_order [of ?d None threeInputs] k by simp
  have a1: "fst (signEach (assignedSigner ?d ?ok) [0..<length (ins (tx threeInputs))] threeInputs)
      = Inr (attachScript (attachScript (attachScript threeInputs 0 [1]) 1 [2]) 2 [1])"
    by code_simp
  have a2: "map inputIndex (snd (signEach (assignedSigner ?d ?ok)
      [0..<length (ins (tx threeInputs))] threeInputs)) = [0, 1, 2]"
    by code_simp
  have b1: "fst (signEach (assignedSigner ?d ?bad) [0..<length (ins (tx threeInputs))] threeInputs)
      = Inl (SignerError ''refused'')"
    by code_simp
  have b2: "map inputIndex (snd (signEach (assignedSigner ?d ?bad)
      [0..<length (ins (tx threeInputs))] threeInputs)) = [0, 1]"
    by code_simp
  have c1: "fst (signEach (assignedSigner ?d []) [0..<length (ins (tx threeInputs))] threeInputs)
      = Inr (attachScript (attachScript (attachScript threeInputs 0 [1]) 1 [1]) 2 [1])"
    by code_simp
  from k n a1 a2 b1 b2 c1 show ?thesis unfolding a b c by simp
qed

text \<open>
  Claim C10.  An override whose index is negative, or at least the number \<open>N\<close> of inputs,
  has no effect (the signers being such that they leave the number of inputs as it is):
  the call has the outcome and makes the invocations that it has and makes without that
  entry; every invocation is by the signer that the other entries and the default assign;
  and the entry raises no error: an error of the call is the error of a signer that was
  invoked.
\<close>

theorem signInputs_out_of_range_override:
  assumes "keepsInputs defaultSigner"
    and "\<forall>q\<in>set (before @ after). keepsInputs (signer q)"
    and "index p < 0 \<or> int (length (ins (tx txB))) \<le> index p"
  shows "signInputs txB defaultSigner (Some (before @ p # after))
           = signInputs txB defaultSigner (Some (before @ after))
    \<and> (\<forall>c\<in>set (snd (signInputs txB defaultSigner (Some (before @ p # after)))).
          signerUsed c = assignedSigner defaultSigner (before @ after) (inputIndex c))
    \<and> (\<forall>e. fst (signInputs txB defaultSigner (Some (before @ p # after))) = Inl e \<longrightarrow>
          (\<exists>c\<in>set (snd (signInputs txB defaultSigner (Some (before @ p # after)))).
             signTransaction (signerUsed c) (builderGiven c) (inputIndex c) = Inl e))"
proof -
  let ?N = "length (ins (tx txB))"
  let ?asg = "assignedSigner defaultSigner (before @ after)"
  let ?arr = "foldl (\<lambda>arr signerPair. js_set arr (index signerPair) (signer signerPair))
             (map (\<lambda>_. Some defaultSigner) (ins (tx txB))) (before @ p # after)"
  have k: "keepsInputs (?asg j)" for j
    using assignedSigner_cases [of defaultSigner "before @ after" j] assms(1,2) by auto
  have same: "assignedSigner defaultSigner (before @ p # after) j = ?asg j" if "j < ?N" for j
  proof -
    from that assms(3) have "index p \<noteq> int j" by auto
    then show ?thesis by (rule assignedSigner_skip)
  qed
  have "\<forall>j. 0 \<le> j \<and> j < ?N \<longrightarrow> js_get ?arr j = Some (?asg j) \<and> keepsInputs (?asg j)"
  proof (intro allI impI conjI)
    fix j assume "0 \<le> j \<and> j < ?N"
    then have j: "j < length (ins (tx txB))" by simp
    have "js_get ?arr j = Some (assignedSigner defaultSigner (before @ p # after) j)"
      using j by (rule js_get_overrides)
    with same [OF j] show "js_get ?arr j = Some (?asg j)" by simp
    show "keepsInputs (?asg j)" by (rule k)
  qed
  then have "signLoop ?arr 0 txB = signEach ?asg [0..<?N] txB"
    by (rule signLoop_signEach) simp_all
  then have l: "signInputs txB defaultSigner (Some (before @ p # after))
      = signEach ?asg [0..<?N] txB"
    by (simp add: signInputs_def getTransactionInsideBuilder_def Let_def)
  have r: "signInputs txB defaultSigner (Some (before @ after)) = signEach ?asg [0..<?N] txB"
    using assms(1,2) by (intro signInputs_signEach) simp_all
  have u: "\<forall>c\<in>set (snd (signEach ?asg [0..<?N] txB)). signerUsed c = ?asg (inputIndex c)"
    using signEach_assigned [of _ ?asg "[0..<?N]" txB] by simp
  have f: "\<forall>e. fst (signEach ?asg [0..<?N] txB) = Inl e \<longrightarrow>
      (\<exists>c\<in>set (snd (signEach ?asg [0..<?N] txB)).
         signTransaction (signerUsed c) (builderGiven c) (inputIndex c) = Inl e)"
  proof (intro allI impI)
    fix e assume "fst (signEach ?asg [0..<?N] txB) = Inl e"
    from signEach_failure [OF this]
    show "\<exists>c\<in>set (snd (signEach ?asg [0..<?N] txB)).
         signTransaction (signerUsed c) (builderGiven c) (inputIndex c) = Inl e"
      using last_in_set by blast
  qed
  from u f show ?thesis unfolding l r by simp
qed

theorem signInputs_out_of_range_override_witness:
  "keepsInputs (scriptSigner [1]) \<and> keepsInputs (scriptSigner [2])
   \<and> int (length (ins (tx threeInputs))) \<le> index \<lparr>index = 3, signer = failingSigner ''refused''\<rparr>
   \<and> index \<lparr>index = - 1, signer = failingSigner ''refused''\<rparr> < 0
   \<and> signInputs threeInputs (scriptSigner [1])
        (Some ([] @ \<lparr>index = 3, signer = failingSigner ''refused''\<rparr>
               # [\<lparr>index = 1, signer = scriptSigner [2]\<rparr>]))
       = signInputs threeInputs (scriptSigner [1])
           (Some ([] @ [\<lparr>index = 1, signer = scriptSigner [2]\<rparr>]))
   \<and> signInputs threeInputs (scriptSigner [1])
        (Some ([\<lparr>index = 1, signer = scriptSigner [2]\<rparr>]
               @ \<lparr>index = - 1, signer = failingSigner ''refused''\<rparr> # []))
       = signInputs threeInputs (scriptSigner [1])
           (Some ([\<lparr>index = 1, signer = scriptSigner [2]\<rparr>] @ []))
   \<and> fst (signInputs threeInputs (scriptSigner [1])
        (Some ([] @ \<lparr>index = 3, signer = failingSigner ''refused''\<rparr>
               # [\<lparr>index = 1, signer = scriptSigner [2]\<rparr>])))
       = Inr (attachScript (attachScript (attachScript threeInputs 0 [1]) 1 [2]) 2 [1])"
proof -
  let ?d = "scriptSigner [1]"
  let ?o = "\<lparr>index = 1, signer = scriptSigner [2]\<rparr>"
  have k: "keepsInputs ?d" "keepsInputs (scriptSigner [2])"
    by (rule keepsInputs_scriptSigner)+
  have n: "int (length (ins (tx threeInputs))) = 3" by code_simp
  have r1: "int (length (ins (tx threeInputs))) \<le> index \<lparr>index = 3, signer = failingSigner ''refused''\<rparr>"
    and r2: "index \<lparr>index = - 1, signer = failingSigner ''refused''\<rparr> < 0"
    by (simp_all add: n)
  have h1: "\<forall>q\<in>set ([] @ [?o]). keepsInputs (signer q)" using k by simp
  have h2: "\<forall>q\<in>set ([?o] @ []). keepsInputs (signer q)" using k by simp
  have e1: "signInputs threeInputs ?d
        (Some ([] @ \<lparr>index = 3, signer = failingSigner ''refused''\<rparr> # [?o]))
       = signInputs threeInputs ?d (Some ([] @ [?o]))"
    using signInputs_out_of_range_override [OF k(1) h1, of "\<lparr>index = 3, signer = failingSigner ''refused''\<rparr>" threeInputs] r1
    by blast
  have e2: "signInputs threeInputs ?d
        (Some ([?o] @ \<lparr>index = - 1, signer = failingSigner ''refused''\<rparr> # []))
       = signInputs threeInputs ?d (Some ([?o] @ []))"
    using signInputs_out_of_range_override [OF k(1) h2, of "\<lparr>index = - 1, signer = failingSigner ''refused''\<rparr>" threeInputs] r2
    by blast
  have v: "fst (signInputs threeInputs ?d (Some ([] @ [?o])))
      = Inr (attachScript (attachScript (attachScript threeInputs 0 [1]) 1 [2]) 2 [1])"
    by code_simp
  from k r1 r2 e1 e2 v show ?thesis by simp
qed

end
